theory Spec2Isabelle
  imports Main "HOL-Library.Word"
begin

section \<open>Machine integers and spans\<close>

text \<open>
  Every position and every amount of \<^verbatim>\<open>include/ubip/buffer.hpp\<close> is a
  \<^verbatim>\<open>std::size_t\<close>: an unsigned machine integer whose sums and differences wrap
  around. It is modelled as a 64-bit word.
\<close>

type_synonym size_t = "64 word"

text \<open>\<^verbatim>\<open>detail::max\<close> and \<^verbatim>\<open>detail::min\<close>.\<close>

definition max_sz :: "size_t \<Rightarrow> size_t \<Rightarrow> size_t" where
  "max_sz a b = (if a > b then a else b)"

definition min_sz :: "size_t \<Rightarrow> size_t \<Rightarrow> size_t" where
  "min_sz a b = (if a < b then a else b)"

text \<open>
  A span is a pointer and a length. Every span the code builds points into the storage
  \<^verbatim>\<open>buffer_\<close>, so the pointer is kept as its offset from the start of the storage.
  \<open>Null_span\<close> is the default-constructed span \<^verbatim>\<open>{}\<close>: no pointer, length 0.
\<close>

datatype span = Null_span | Span size_t size_t

fun span_size :: "span \<Rightarrow> size_t" where
  "span_size Null_span = 0"
| "span_size (Span start_offset sz) = sz"

section \<open>The control block\<close>

text \<open>
  \<^verbatim>\<open>detail::control_block\<close>: the capacity and the three positions. The fields
  \<^verbatim>\<open>capacity_\<close>, \<^verbatim>\<open>read_\<close>, \<^verbatim>\<open>write_\<close> and \<^verbatim>\<open>watermark_\<close> are named
  \<open>cb_capacity\<close>, \<open>cb_read\<close>, \<open>cb_write\<close> and \<open>cb_watermark\<close> (a name cannot end
  with an underscore). The member \<^verbatim>\<open>buffer_\<close> is the address of the storage, which
  spans are relative to.
\<close>

record control_block =
  cb_capacity :: size_t
  cb_read :: size_t
  cb_write :: size_t
  cb_watermark :: size_t

definition control_block_init :: "size_t \<Rightarrow> control_block" where
  "control_block_init sz = \<lparr>cb_capacity = sz, cb_read = 0, cb_write = 0, cb_watermark = 0\<rparr>"

definition get_read :: "control_block \<Rightarrow> size_t" where
  "get_read c = cb_read c"

definition set_read :: "size_t \<Rightarrow> control_block \<Rightarrow> control_block" where
  "set_read new_value c = c\<lparr>cb_read := new_value\<rparr>"

definition get_write :: "control_block \<Rightarrow> size_t" where
  "get_write c = cb_write c"

definition set_write :: "size_t \<Rightarrow> control_block \<Rightarrow> control_block" where
  "set_write w c = c\<lparr>cb_write := w\<rparr>"

definition get_watermark :: "control_block \<Rightarrow> size_t" where
  "get_watermark c = cb_watermark c"

definition set_watermark :: "size_t \<Rightarrow> control_block \<Rightarrow> control_block" where
  "set_watermark w c = c\<lparr>cb_watermark := w\<rparr>"

definition get_capacity :: "control_block \<Rightarrow> size_t" where
  "get_capacity c = cb_capacity c"

definition const_span :: "control_block \<Rightarrow> size_t \<Rightarrow> size_t \<Rightarrow> span" where
  "const_span c start_offset sz = Span start_offset sz"

definition mut_span :: "control_block \<Rightarrow> size_t \<Rightarrow> size_t \<Rightarrow> span" where
  "mut_span c start_offset sz = Span start_offset sz"

section \<open>The reader\<close>

text \<open>
  \<^verbatim>\<open>buffer_reader::values\<close>. The method reaches the control block through a
  pointer, so the control block is passed in and handed back.
\<close>

definition reader_values :: "control_block \<Rightarrow> span \<times> control_block" where
  "reader_values c =
    (let read = get_read c;
         write = get_write c
     in if write > read then
          (let num_values = write - read
           in (const_span c read num_values, c))
        else if write < read then
          (let watermark = get_watermark c
           in if read = watermark then (const_span c 0 write, c)
              else (let num_values = watermark - read
                    in (const_span c read num_values, c)))
        else (Null_span, c))"

text \<open>
  \<^verbatim>\<open>buffer_reader::consume\<close>. The remainder by a watermark of 0 is undefined
  behaviour in C++: the model returns \<open>None\<close> there.
\<close>

definition consume :: "size_t \<Rightarrow> control_block \<Rightarrow> control_block option" where
  "consume amount c =
    (let read = get_read c;
         write = get_write c
     in if read = write then Some c
        else if write > read then
          (let new_read = min_sz (read + amount) write
           in Some (set_read new_read c))
        else
          (let watermark = get_watermark c;
               available_for_consumption = watermark - read + write;
               amount' = min_sz available_for_consumption amount
           in if watermark = 0 then None
              else (let new_read = (read + amount') mod watermark
                    in Some (set_read new_read c))))"

section \<open>The writer\<close>

text \<open>
  \<^verbatim>\<open>reader_writer_pair\<close>: the reader and the writer point to one control block, and
  the writer carries \<^verbatim>\<open>prepared_\<close> (here \<open>prepared\<close>), the length of the reservation
  not yet committed.
\<close>

record reader_writer_pair =
  cb :: control_block
  prepared :: size_t

text \<open>\<^verbatim>\<open>buffer_writer::prepare\<close>.\<close>

definition prepare :: "size_t \<Rightarrow> reader_writer_pair \<Rightarrow> span \<times> reader_writer_pair" where
  "prepare amount s =
    (if prepared s \<noteq> 0 then (Null_span, s)
     else
       (let c = cb s;
            read = get_read c;
            write = get_write c
        in if write \<ge> read then
             (let capacity = get_capacity c;
                  left_before_capacity = capacity - write
              in if left_before_capacity \<ge> amount then
                   (let s1 = s\<lparr>prepared := amount\<rparr>;
                        c1 = set_watermark (write + amount) c
                    in (mut_span c1 write amount, s1\<lparr>cb := c1\<rparr>))
                 else if read > amount then
                   (let c1 = set_watermark write c;
                        c2 = set_write 0 c1;
                        s1 = s\<lparr>cb := c2\<rparr>;
                        s2 = s1\<lparr>prepared := amount\<rparr>
                    in (mut_span c2 0 amount, s2))
                 else (Null_span, s))
           else if write + amount < read then
             (let s1 = s\<lparr>prepared := amount\<rparr>
              in (mut_span c write amount, s1))
           else (Null_span, s)))"

text \<open>\<^verbatim>\<open>buffer_writer::commit\<close>.\<close>

definition commit :: "size_t \<Rightarrow> reader_writer_pair \<Rightarrow> reader_writer_pair" where
  "commit amount s =
    (if prepared s = 0 \<or> amount = 0 then s
     else
       (let amount' = min_sz amount (prepared s);
            s1 = s\<lparr>prepared := prepared s - amount'\<rparr>;
            write = get_write (cb s1)
        in s1\<lparr>cb := set_write (write + amount') (cb s1)\<rparr>))"

section \<open>The buffer and sequences of calls\<close>

text \<open>
  \<^verbatim>\<open>buffer<T, N>\<close> constructs the control block with capacity \<open>N\<close> and all
  positions 0; the pair it hands out has a writer with nothing prepared.
\<close>

definition new_pair :: "size_t \<Rightarrow> reader_writer_pair" where
  "new_pair N = \<lparr>cb = control_block_init N, prepared = 0\<rparr>"

datatype call = Prepare size_t | Commit size_t | Consume size_t | Values

fun exec :: "call \<Rightarrow> reader_writer_pair \<Rightarrow> reader_writer_pair option" where
  "exec (Prepare amount) s = Some (snd (prepare amount s))"
| "exec (Commit amount) s = Some (commit amount s)"
| "exec (Consume amount) s =
     (case consume amount (cb s) of
        None \<Rightarrow> None
      | Some c \<Rightarrow> Some (s\<lparr>cb := c\<rparr>))"
| "exec Values s = Some (s\<lparr>cb := snd (reader_values (cb s))\<rparr>)"

fun run :: "call list \<Rightarrow> reader_writer_pair \<Rightarrow> reader_writer_pair option" where
  "run [] s = Some s"
| "run (c # cs) s = (case exec c s of None \<Rightarrow> None | Some s' \<Rightarrow> run cs s')"

text \<open>The region \<open>[a, b)\<close> of the storage: it starts at \<open>a\<close> and has \<open>b - a\<close> elements.\<close>

definition region :: "size_t \<Rightarrow> size_t \<Rightarrow> span" where
  "region a b = Span a (b - a)"

text \<open>
  A call fits a buffer of capacity \<open>N\<close> when the sum of \<open>N\<close> and a prepared amount does
  not wrap around. Every amount up to \<open>2 ^ 63\<close> fits every buffer considered below.
\<close>

fun fits :: "size_t \<Rightarrow> call \<Rightarrow> bool" where
  "fits N (Prepare amount) = (unat N + unat amount < 2 ^ 64)"
| "fits N c = True"

text \<open>
  The invariant of the positions, on their values as natural numbers. While the writer
  leads (\<open>read \<le> write\<close>) the pending reservation ends inside the storage; once the writer
  has wrapped (\<open>write < read\<close>) the pending reservation ends before \<open>read\<close>, and \<open>read\<close> is
  at most the watermark, which is at most the capacity. The capacity is below \<open>2 ^ 63\<close>:
  an array of more elements does not exist.
\<close>

definition positions_ok :: "reader_writer_pair \<Rightarrow> bool" where
  "positions_ok s =
    (unat (cb_capacity (cb s)) < 2 ^ 63 \<and>
     (if unat (cb_read (cb s)) \<le> unat (cb_write (cb s))
      then unat (cb_write (cb s)) + unat (prepared s) \<le> unat (cb_capacity (cb s))
      else unat (cb_write (cb s)) + unat (prepared s) < unat (cb_read (cb s))
           \<and> unat (cb_read (cb s)) \<le> unat (cb_watermark (cb s))
           \<and> unat (cb_watermark (cb s)) \<le> unat (cb_capacity (cb s))))"

section \<open>The storage and producer/consumer cycles\<close>

text \<open>
  The storage \<^verbatim>\<open>T buffer_[N]\<close> is a list of \<open>N\<close> elements. The producer fills the
  span it was given with the elements \<open>xs\<close>, one for each element of the span, as the
  tests do; the empty span \<^verbatim>\<open>{}\<close> has no element to fill. The consumer reads the
  elements of the span that \<open>values()\<close> returns. An access outside the storage is
  undefined behaviour, \<open>None\<close>.
\<close>

definition span_store :: "'a list \<Rightarrow> span \<Rightarrow> 'a list \<Rightarrow> 'a list option" where
  "span_store buf sp xs =
    (case sp of
       Null_span \<Rightarrow> Some buf
     | Span start_offset sz \<Rightarrow>
         if unat start_offset + unat sz \<le> length buf \<and> length xs = unat sz
         then Some (take (unat start_offset) buf @ xs @ drop (unat start_offset + unat sz) buf)
         else None)"

definition span_load :: "'a list \<Rightarrow> span \<Rightarrow> 'a list option" where
  "span_load buf sp =
    (case sp of
       Null_span \<Rightarrow> Some []
     | Span start_offset sz \<Rightarrow>
         if unat start_offset + unat sz \<le> length buf
         then Some (take (unat sz) (drop (unat start_offset) buf))
         else None)"

text \<open>
  One cycle for the elements \<open>xs\<close>, with \<open>a = length xs\<close>: \<open>prepare(a)\<close>, fill the span
  returned, \<open>commit(a)\<close>, read the span of \<open>values()\<close>, \<open>consume(a)\<close>. The cycle yields
  the span \<open>prepare\<close> returned and the elements the consumer has read.
\<close>

definition cycle ::
  "'a list \<Rightarrow> 'a list \<times> reader_writer_pair \<Rightarrow>
   ((span \<times> 'a list) \<times> 'a list \<times> reader_writer_pair) option" where
  "cycle xs bs =
    (case bs of (buf, s) \<Rightarrow>
      (let amount = of_nat (length xs);
           (sp, s1) = prepare amount s
       in case span_store buf sp xs of
            None \<Rightarrow> None
          | Some buf1 \<Rightarrow>
              (let s2 = commit amount s1;
                   (vs, c2) = reader_values (cb s2)
               in case span_load buf1 vs of
                    None \<Rightarrow> None
                  | Some obs \<Rightarrow>
                      (case consume amount c2 of
                         None \<Rightarrow> None
                       | Some c3 \<Rightarrow> Some ((sp, obs), (buf1, s2\<lparr>cb := c3\<rparr>))))))"

fun cycles ::
  "'a list list \<Rightarrow> 'a list \<times> reader_writer_pair \<Rightarrow>
   ((span \<times> 'a list) list \<times> 'a list \<times> reader_writer_pair) option" where
  "cycles [] bs = Some ([], bs)"
| "cycles (xs # xss) bs =
     (case cycle xs bs of
        None \<Rightarrow> None
      | Some (r, bs1) \<Rightarrow>
          (case cycles xss bs1 of
             None \<Rightarrow> None
           | Some (rs, bs2) \<Rightarrow> Some (r # rs, bs2)))"

text \<open>
  What the cycles are to yield, for a storage of \<open>N\<close> elements, when each cycle starts
  with the buffer empty at position \<open>pos\<close> (\<open>read = write = pos\<close>): the elements \<open>xs\<close> go
  to the region at \<open>pos\<close> when they fit before the end of the storage, else to the region
  at 0 when they are fewer than \<open>pos\<close>, and the consumer reads exactly \<open>xs\<close>; else
  \<open>prepare\<close> returns the empty span, the consumer reads nothing and the position stays.
\<close>

fun expected :: "nat \<Rightarrow> nat \<Rightarrow> 'a list list \<Rightarrow> (span \<times> 'a list) list" where
  "expected N pos [] = []"
| "expected N pos (xs # xss) =
     (if length xs \<le> N - pos then
        (Span (of_nat pos) (of_nat (length xs)), xs) # expected N (pos + length xs) xss
      else if length xs < pos then
        (Span 0 (of_nat (length xs)), xs) # expected N (length xs) xss
      else (Null_span, []) # expected N pos xss)"

section \<open>Equations of the operations\<close>

lemmas accessor_defs =
  get_read_def set_read_def get_write_def set_write_def get_watermark_def
  set_watermark_def get_capacity_def const_span_def mut_span_def

lemma unat_min_sz: "unat (min_sz a b) = min (unat a) (unat b)"
  by (simp add: min_sz_def min_def word_less_nat_alt)

lemma unat_add_small:
  fixes a b :: size_t
  shows "unat a + unat b < 2 ^ 64 \<Longrightarrow> unat (a + b) = unat a + unat b"
  using unat_add_lem [of a b] by simp

lemma unat_sub_small:
  fixes a b :: size_t
  shows "unat b \<le> unat a \<Longrightarrow> unat (a - b) = unat a - unat b"
  by (simp add: unat_sub word_le_nat_alt)

lemma prepare_unfold:
  "prepared s = 0 \<Longrightarrow> prepare amount s =
    (if cb_read (cb s) \<le> cb_write (cb s) then
       if amount \<le> cb_capacity (cb s) - cb_write (cb s) then
         (Span (cb_write (cb s)) amount,
          s\<lparr>cb := (cb s)\<lparr>cb_watermark := cb_write (cb s) + amount\<rparr>, prepared := amount\<rparr>)
       else if amount < cb_read (cb s) then
         (Span 0 amount,
          s\<lparr>cb := (cb s)\<lparr>cb_watermark := cb_write (cb s), cb_write := 0\<rparr>,
            prepared := amount\<rparr>)
       else (Null_span, s)
     else if cb_write (cb s) + amount < cb_read (cb s) then
       (Span (cb_write (cb s)) amount, s\<lparr>prepared := amount\<rparr>)
     else (Null_span, s))"
  by (simp add: prepare_def accessor_defs Let_def)

lemma prepare_pending: "prepared s \<noteq> 0 \<Longrightarrow> prepare amount s = (Null_span, s)"
  by (simp add: prepare_def)

lemma consume_empty: "cb_read c = cb_write c \<Longrightarrow> consume amount c = Some c"
  by (simp add: consume_def accessor_defs)

lemma consume_unwrapped:
  "cb_read c < cb_write c \<Longrightarrow>
   consume amount c = Some (c\<lparr>cb_read := min_sz (cb_read c + amount) (cb_write c)\<rparr>)"
  by (auto simp: consume_def accessor_defs Let_def)

lemma consume_wrapped:
  "cb_write c < cb_read c \<Longrightarrow> cb_watermark c \<noteq> 0 \<Longrightarrow>
   consume amount c =
     Some (c\<lparr>cb_read := (cb_read c + min_sz (cb_watermark c - cb_read c + cb_write c) amount)
                mod cb_watermark c\<rparr>)"
  by (auto simp: consume_def accessor_defs Let_def)

lemma values_unchanged: "snd (reader_values c) = c"
  by (simp add: reader_values_def Let_def)

lemma prepare_capacity: "cb_capacity (cb (snd (prepare amount s))) = cb_capacity (cb s)"
  by (simp add: prepare_def accessor_defs Let_def)

lemma commit_capacity: "cb_capacity (cb (commit amount s)) = cb_capacity (cb s)"
  by (simp add: commit_def accessor_defs Let_def)

lemma consume_capacity: "consume amount c = Some c' \<Longrightarrow> cb_capacity c' = cb_capacity c"
  by (auto simp: consume_def accessor_defs Let_def split: if_splits)

section \<open>What each operation does\<close>

text \<open>
  C4. \<open>values()\<close> changes nothing in the control block, and it returns the region
  \<open>[read, write)\<close> when \<open>write > read\<close>, the empty span when \<open>write = read\<close>, the region
  \<open>[read, watermark)\<close> when \<open>write < read\<close> and \<open>read \<noteq> watermark\<close>, and the region
  \<open>[0, write)\<close> when \<open>write < read\<close> and \<open>read = watermark\<close>.
\<close>

theorem values_regions:
  "reader_values c =
    (if cb_write c > cb_read c then region (cb_read c) (cb_write c)
     else if cb_write c = cb_read c then Null_span
     else if cb_read c \<noteq> cb_watermark c then region (cb_read c) (cb_watermark c)
     else region 0 (cb_write c),
     c)"
  by (auto simp: reader_values_def accessor_defs region_def Let_def)

theorem values_regions_witness:
  "reader_values \<lparr>cb_capacity = 10, cb_read = 7, cb_write = 5, cb_watermark = 7\<rparr> =
     (Span 0 5, \<lparr>cb_capacity = 10, cb_read = 7, cb_write = 5, cb_watermark = 7\<rparr>)"
  using values_regions [of "\<lparr>cb_capacity = 10, cb_read = 7, cb_write = 5, cb_watermark = 7\<rparr>"]
  by (simp add: region_def)

text \<open>
  C2. With no reservation pending and \<open>amount > 0\<close>, \<open>prepare(amount)\<close> does exactly this,
  all sums, differences and comparisons being those of \<^verbatim>\<open>std::size_t\<close>: if
  \<open>write \<ge> read\<close> and \<open>capacity - write \<ge> amount\<close> it sets the watermark to
  \<open>write + amount\<close>, records \<open>amount\<close> as pending and returns the region at \<open>write\<close> of
  length \<open>amount\<close>; else if \<open>write \<ge> read\<close> and \<open>read > amount\<close> it sets the watermark to
  the old \<open>write\<close> and \<open>write\<close> to 0, records \<open>amount\<close> as pending and returns the region at
  0 of length \<open>amount\<close>; else if \<open>write < read\<close> and \<open>write + amount < read\<close> it records
  \<open>amount\<close> as pending and returns the region at \<open>write\<close> of length \<open>amount\<close>; otherwise
  it returns the empty span and changes nothing.
\<close>

theorem prepare_cases:
  assumes "prepared s = 0" and "amount > 0"
  shows "prepare amount s =
    (if cb_write (cb s) \<ge> cb_read (cb s) \<and> cb_capacity (cb s) - cb_write (cb s) \<ge> amount then
       (Span (cb_write (cb s)) amount,
        s\<lparr>cb := (cb s)\<lparr>cb_watermark := cb_write (cb s) + amount\<rparr>, prepared := amount\<rparr>)
     else if cb_write (cb s) \<ge> cb_read (cb s) \<and> cb_read (cb s) > amount then
       (Span 0 amount,
        s\<lparr>cb := (cb s)\<lparr>cb_watermark := cb_write (cb s), cb_write := 0\<rparr>, prepared := amount\<rparr>)
     else if cb_write (cb s) < cb_read (cb s) \<and> cb_write (cb s) + amount < cb_read (cb s) then
       (Span (cb_write (cb s)) amount, s\<lparr>prepared := amount\<rparr>)
     else (Null_span, s))"
  using assms by (auto simp: prepare_def accessor_defs Let_def)

theorem prepare_cases_witness:
  "prepared \<lparr>cb = \<lparr>cb_capacity = 10, cb_read = 7, cb_write = 7, cb_watermark = 10\<rparr>,
              prepared = 0\<rparr> = 0
   \<and> (5 :: size_t) > 0
   \<and> prepare 5 \<lparr>cb = \<lparr>cb_capacity = 10, cb_read = 7, cb_write = 7, cb_watermark = 10\<rparr>,
                 prepared = 0\<rparr> =
       (Span 0 5,
        \<lparr>cb = \<lparr>cb_capacity = 10, cb_read = 7, cb_write = 0, cb_watermark = 7\<rparr>,
           prepared = 5\<rparr>)"
  using prepare_cases [of "\<lparr>cb = \<lparr>cb_capacity = 10, cb_read = 7, cb_write = 7,
    cb_watermark = 10\<rparr>, prepared = 0\<rparr>" 5]
  by simp

text \<open>
  The paths of \<open>prepare\<close> that return the empty span \<^verbatim>\<open>{}\<close>, with the comparisons
  and sums of \<^verbatim>\<open>std::size_t\<close>: a reservation is pending, or the writer leads and
  \<open>capacity - write < amount\<close> and \<open>read \<le> amount\<close>, or the writer has wrapped and
  \<open>write + amount < read\<close> does not hold. On each of them the positions and the pending
  length stay as they were.
\<close>

theorem prepare_failure:
  "(fst (prepare amount s) = Null_span \<longleftrightarrow>
      prepared s \<noteq> 0
      \<or> (cb_write (cb s) \<ge> cb_read (cb s) \<and> cb_capacity (cb s) - cb_write (cb s) < amount
          \<and> cb_read (cb s) \<le> amount)
      \<or> (cb_write (cb s) < cb_read (cb s) \<and> cb_read (cb s) \<le> cb_write (cb s) + amount))
   \<and> (fst (prepare amount s) = Null_span \<longrightarrow> snd (prepare amount s) = s)"
  by (auto simp: prepare_def accessor_defs Let_def)

theorem prepare_failure_witness:
  "fst (prepare 6 \<lparr>cb = \<lparr>cb_capacity = 10, cb_read = 5, cb_write = 5, cb_watermark = 5\<rparr>,
                   prepared = 0\<rparr>) = Null_span
   \<and> snd (prepare 6 \<lparr>cb = \<lparr>cb_capacity = 10, cb_read = 5, cb_write = 5, cb_watermark = 5\<rparr>,
                     prepared = 0\<rparr>) =
       \<lparr>cb = \<lparr>cb_capacity = 10, cb_read = 5, cb_write = 5, cb_watermark = 5\<rparr>, prepared = 0\<rparr>"
  using prepare_failure [of 6 "\<lparr>cb = \<lparr>cb_capacity = 10, cb_read = 5, cb_write = 5,
    cb_watermark = 5\<rparr>, prepared = 0\<rparr>"]
  by simp

text \<open>
  C8. \<open>commit(amount)\<close> changes nothing when nothing is pending or \<open>amount = 0\<close>.
  Otherwise it clamps \<open>amount\<close> to the pending length, adds the clamped amount to \<open>write\<close>
  and subtracts it from the pending length, and nothing else changes; when the pending
  reservation ends below \<open>2 ^ 64\<close> (as the invariant \<open>positions_ok\<close> gives), the new
  \<open>write\<close> is the old one plus the clamped amount as numbers. As long as the pending
  length has not reached 0, the next \<open>prepare\<close> returns the empty span and changes nothing.
\<close>

theorem commit_cases:
  "(prepared s = 0 \<or> amount = 0 \<longrightarrow> commit amount s = s)
   \<and> (prepared s \<noteq> 0 \<and> amount \<noteq> 0 \<longrightarrow>
        commit amount s =
          s\<lparr>cb := (cb s)\<lparr>cb_write := cb_write (cb s) + min amount (prepared s)\<rparr>,
            prepared := prepared s - min amount (prepared s)\<rparr>)
   \<and> (prepared s \<noteq> 0 \<and> amount \<noteq> 0 \<and> unat (cb_write (cb s)) + unat (prepared s) < 2 ^ 64 \<longrightarrow>
        unat (cb_write (cb (commit amount s))) =
          unat (cb_write (cb s)) + min (unat amount) (unat (prepared s))
        \<and> unat (prepared (commit amount s)) =
          unat (prepared s) - min (unat amount) (unat (prepared s)))
   \<and> (prepared (commit amount s) \<noteq> 0 \<longrightarrow>
        prepare amount' (commit amount s) = (Null_span, commit amount s))"
proof -
  have eq: "prepared s \<noteq> 0 \<and> amount \<noteq> 0 \<longrightarrow>
        commit amount s =
          s\<lparr>cb := (cb s)\<lparr>cb_write := cb_write (cb s) + min amount (prepared s)\<rparr>,
            prepared := prepared s - min amount (prepared s)\<rparr>"
    by (auto simp: commit_def accessor_defs Let_def min_sz_def min_def)
  have m: "unat (min amount (prepared s)) = min (unat amount) (unat (prepared s))"
    by (simp add: min_def word_le_nat_alt)
  have "prepared s \<noteq> 0 \<and> amount \<noteq> 0 \<and> unat (cb_write (cb s)) + unat (prepared s) < 2 ^ 64 \<longrightarrow>
        unat (cb_write (cb (commit amount s))) =
          unat (cb_write (cb s)) + min (unat amount) (unat (prepared s))
        \<and> unat (prepared (commit amount s)) =
          unat (prepared s) - min (unat amount) (unat (prepared s))"
  proof (intro impI, elim conjE)
    assume a: "prepared s \<noteq> 0" "amount \<noteq> 0"
      and b: "unat (cb_write (cb s)) + unat (prepared s) < 2 ^ 64"
    have "unat (cb_write (cb s)) + unat (min amount (prepared s)) < 2 ^ 64"
      using b by (simp add: m)
    then have w: "unat (cb_write (cb s) + min amount (prepared s)) =
        unat (cb_write (cb s)) + unat (min amount (prepared s))"
      by (rule unat_add_small)
    have "unat (min amount (prepared s)) \<le> unat (prepared s)"
      by (simp add: m)
    then have p: "unat (prepared s - min amount (prepared s)) =
        unat (prepared s) - unat (min amount (prepared s))"
      by (rule unat_sub_small)
    show "unat (cb_write (cb (commit amount s))) =
          unat (cb_write (cb s)) + min (unat amount) (unat (prepared s))
        \<and> unat (prepared (commit amount s)) =
          unat (prepared s) - min (unat amount) (unat (prepared s))"
      using eq a by (simp add: w p m)
  qed
  moreover have "prepared s = 0 \<or> amount = 0 \<longrightarrow> commit amount s = s"
    by (auto simp: commit_def)
  moreover have "prepared (commit amount s) \<noteq> 0 \<longrightarrow>
        prepare amount' (commit amount s) = (Null_span, commit amount s)"
    by (simp add: prepare_pending)
  ultimately show ?thesis
    using eq by blast
qed

theorem commit_cases_witness:
  "commit 2 \<lparr>cb = \<lparr>cb_capacity = 10, cb_read = 0, cb_write = 0, cb_watermark = 5\<rparr>,
             prepared = 5\<rparr> =
     \<lparr>cb = \<lparr>cb_capacity = 10, cb_read = 0, cb_write = 2, cb_watermark = 5\<rparr>, prepared = 3\<rparr>
   \<and> prepare 1 \<lparr>cb = \<lparr>cb_capacity = 10, cb_read = 0, cb_write = 2, cb_watermark = 5\<rparr>,
                 prepared = 3\<rparr> =
       (Null_span,
        \<lparr>cb = \<lparr>cb_capacity = 10, cb_read = 0, cb_write = 2, cb_watermark = 5\<rparr>,
           prepared = 3\<rparr>)"
  using commit_cases [of "\<lparr>cb = \<lparr>cb_capacity = 10, cb_read = 0, cb_write = 0,
    cb_watermark = 5\<rparr>, prepared = 5\<rparr>" 2 1]
  by auto

section \<open>The invariant of the positions\<close>

lemma positions_ok_new_pair: "unat N < 2 ^ 63 \<Longrightarrow> positions_ok (new_pair N)"
  by (simp add: positions_ok_def new_pair_def control_block_init_def)

lemma positions_ok_nowrap:
  "positions_ok s \<Longrightarrow> unat (cb_write (cb s)) + unat (prepared s) < 2 ^ 63"
  by (auto simp: positions_ok_def split: if_splits)

lemma positions_ok_commit:
  assumes "positions_ok s"
  shows "positions_ok (commit amount s)"
proof (cases "prepared s = 0 \<or> amount = 0")
  case True
  then show ?thesis using assms by (auto simp: commit_def)
next
  case False
  define a' where "a' = min_sz amount (prepared s)"
  have le: "unat a' \<le> unat (prepared s)"
    by (simp add: a'_def unat_min_sz)
  have "unat (cb_write (cb s)) + unat a' < 2 ^ 64"
    using positions_ok_nowrap [OF assms] le by simp
  then have w': "unat (cb_write (cb s) + a') = unat (cb_write (cb s)) + unat a'"
    by (rule unat_add_small)
  have p': "unat (prepared s - a') = unat (prepared s) - unat a'"
    using le by (rule unat_sub_small)
  have eq: "commit amount s =
      s\<lparr>cb := (cb s)\<lparr>cb_write := cb_write (cb s) + a'\<rparr>, prepared := prepared s - a'\<rparr>"
    using False by (simp add: commit_def a'_def accessor_defs Let_def)
  show ?thesis
    using assms le unfolding eq positions_ok_def
    by (simp add: w' p' split: if_splits)
qed

lemma positions_ok_prepare:
  assumes ok: "positions_ok s"
    and fit: "unat (cb_capacity (cb s)) + unat amount < 2 ^ 64"
  shows "positions_ok (snd (prepare amount s))"
proof (cases "prepared s = 0")
  case False
  then show ?thesis using ok by (simp add: prepare_pending)
next
  case p0: True
  show ?thesis
  proof (cases "cb_read (cb s) \<le> cb_write (cb s)")
    case True
    then have rw: "unat (cb_read (cb s)) \<le> unat (cb_write (cb s))"
      by (simp add: word_le_nat_alt)
    with ok have wn: "unat (cb_write (cb s)) \<le> unat (cb_capacity (cb s))"
      by (simp add: positions_ok_def)
    then have left: "unat (cb_capacity (cb s) - cb_write (cb s)) =
        unat (cb_capacity (cb s)) - unat (cb_write (cb s))"
      by (rule unat_sub_small)
    show ?thesis
    proof (cases "amount \<le> cb_capacity (cb s) - cb_write (cb s)")
      case tail: True
      then have "unat amount \<le> unat (cb_capacity (cb s)) - unat (cb_write (cb s))"
        by (simp add: word_le_nat_alt left)
      then show ?thesis
        using ok p0 True tail rw wn
        by (simp add: prepare_unfold positions_ok_def)
    next
      case notail: False
      show ?thesis
      proof (cases "amount < cb_read (cb s)")
        case True
        then have "unat amount < unat (cb_read (cb s))"
          by (simp add: word_less_nat_alt)
        then show ?thesis
          using ok p0 \<open>cb_read (cb s) \<le> cb_write (cb s)\<close> notail True rw wn
          by (simp add: prepare_unfold positions_ok_def)
      next
        case False
        then show ?thesis
          using ok p0 \<open>cb_read (cb s) \<le> cb_write (cb s)\<close> notail
          by (simp add: prepare_unfold)
      qed
    qed
  next
    case wrapped: False
    then have rw: "unat (cb_write (cb s)) < unat (cb_read (cb s))"
      by (simp add: word_le_nat_alt)
    with ok have "unat (cb_write (cb s)) < unat (cb_capacity (cb s))"
      by (simp add: positions_ok_def)
    with fit have "unat (cb_write (cb s)) + unat amount < 2 ^ 64"
      by simp
    then have sum: "unat (cb_write (cb s) + amount) = unat (cb_write (cb s)) + unat amount"
      by (rule unat_add_small)
    show ?thesis
    proof (cases "cb_write (cb s) + amount < cb_read (cb s)")
      case True
      then have "unat (cb_write (cb s)) + unat amount < unat (cb_read (cb s))"
        by (simp add: word_less_nat_alt sum)
      then show ?thesis
        using ok p0 wrapped True rw
        by (simp add: prepare_unfold positions_ok_def)
    next
      case False
      then show ?thesis
        using ok p0 wrapped by (simp add: prepare_unfold)
    qed
  qed
qed

lemma wrapped_read_nat:
  fixes r w m amount :: size_t
  assumes wr: "unat w < unat r" and rm: "unat r \<le> unat m" and m: "unat m < 2 ^ 63"
  shows "unat ((r + min_sz (m - r + w) amount) mod m) =
    (let k = min (unat m - unat r + unat w) (unat amount)
     in if unat r + k < unat m then unat r + k else unat r + k - unat m)"
proof -
  define k where "k = min (unat m - unat r + unat w) (unat amount)"
  have d: "unat (m - r) = unat m - unat r"
    using rm by (rule unat_sub_small)
  have "unat (m - r) + unat w < 2 ^ 64"
    using wr rm m by (simp add: d)
  then have av: "unat (m - r + w) = unat m - unat r + unat w"
    by (simp add: unat_add_small d)
  have kk: "unat (min_sz (m - r + w) amount) = k"
    by (simp add: unat_min_sz av k_def)
  have kle: "k \<le> unat m - unat r + unat w"
    by (simp add: k_def)
  then have "unat r + unat (min_sz (m - r + w) amount) < 2 ^ 64"
    using wr rm m by (simp add: kk)
  then have s: "unat (r + min_sz (m - r + w) amount) = unat r + k"
    by (simp add: unat_add_small kk)
  have md: "unat ((r + min_sz (m - r + w) amount) mod m) = (unat r + k) mod unat m"
    by (simp add: unat_mod s)
  have "(unat r + k) mod unat m =
      (if unat r + k < unat m then unat r + k else unat r + k - unat m)"
  proof (cases "unat r + k < unat m")
    case True
    then show ?thesis by simp
  next
    case False
    then have "unat r + k - unat m < unat m"
      using kle wr rm by linarith
    then have "(unat r + k - unat m) mod unat m = unat r + k - unat m"
      by simp
    moreover have "(unat r + k) mod unat m = (unat r + k - unat m) mod unat m"
      using False by (simp add: le_mod_geq)
    ultimately show ?thesis using False by simp
  qed
  then show ?thesis
    unfolding md Let_def k_def .
qed

lemma positions_ok_consume:
  assumes ok: "positions_ok s"
  shows "\<exists>c'. consume amount (cb s) = Some c' \<and> positions_ok (s\<lparr>cb := c'\<rparr>)"
proof -
  consider (empty) "cb_read (cb s) = cb_write (cb s)"
    | (unwrapped) "cb_read (cb s) < cb_write (cb s)"
    | (wrapped) "cb_write (cb s) < cb_read (cb s)"
    by (rule linorder_cases) auto
  then show ?thesis
  proof cases
    case empty
    then show ?thesis using ok by (simp add: consume_empty)
  next
    case unwrapped
    then have rw: "unat (cb_read (cb s)) < unat (cb_write (cb s))"
      by (simp add: word_less_nat_alt)
    have "unat (min_sz (cb_read (cb s) + amount) (cb_write (cb s))) \<le> unat (cb_write (cb s))"
      by (simp add: unat_min_sz)
    then show ?thesis
      using ok rw by (simp add: consume_unwrapped [OF unwrapped] positions_ok_def)
  next
    case wrapped
    then have wr: "unat (cb_write (cb s)) < unat (cb_read (cb s))"
      by (simp add: word_less_nat_alt)
    with ok have rm: "unat (cb_read (cb s)) \<le> unat (cb_watermark (cb s))"
      and mn: "unat (cb_watermark (cb s)) \<le> unat (cb_capacity (cb s))"
      and n: "unat (cb_capacity (cb s)) < 2 ^ 63"
      and wp: "unat (cb_write (cb s)) + unat (prepared s) < unat (cb_read (cb s))"
      by (simp_all add: positions_ok_def)
    have m63: "unat (cb_watermark (cb s)) < 2 ^ 63"
      using mn n by simp
    have "unat (cb_watermark (cb s)) \<noteq> 0"
      using wr rm by simp
    then have m0: "cb_watermark (cb s) \<noteq> 0"
      by (simp add: unat_eq_0)
    note r' = wrapped_read_nat [OF wr rm m63, of amount]
    show ?thesis
      using wr rm mn n wp
      by (auto simp: consume_wrapped [OF wrapped m0] positions_ok_def r' Let_def)
  qed
qed

lemma positions_ok_exec:
  assumes "positions_ok s" and "fits (cb_capacity (cb s)) c"
  shows "\<exists>s'. exec c s = Some s' \<and> positions_ok s'
           \<and> cb_capacity (cb s') = cb_capacity (cb s)"
proof (cases c)
  case (Prepare amount)
  then show ?thesis
    using assms by (simp add: positions_ok_prepare prepare_capacity)
next
  case (Commit amount)
  then show ?thesis
    using assms by (simp add: positions_ok_commit commit_capacity)
next
  case (Consume amount)
  obtain c' where c': "consume amount (cb s) = Some c'" "positions_ok (s\<lparr>cb := c'\<rparr>)"
    using positions_ok_consume [OF assms(1)] by blast
  then show ?thesis
    using Consume by (simp add: consume_capacity)
next
  case Values
  then show ?thesis
    using assms by (simp add: values_unchanged)
qed

lemma positions_ok_run:
  "positions_ok s \<Longrightarrow> list_all (fits (cb_capacity (cb s))) cs \<Longrightarrow>
   \<exists>s'. run cs s = Some s' \<and> positions_ok s' \<and> cb_capacity (cb s') = cb_capacity (cb s)"
proof (induction cs arbitrary: s)
  case Nil
  then show ?case by simp
next
  case (Cons c cs)
  then obtain s1 where s1: "exec c s = Some s1" "positions_ok s1"
      "cb_capacity (cb s1) = cb_capacity (cb s)"
    using positions_ok_exec [of s c] by auto
  with Cons.prems have "list_all (fits (cb_capacity (cb s1))) cs"
    by simp
  from Cons.IH [OF s1(2) this] show ?case
    using s1 by auto
qed

lemma reachable_positions_ok:
  assumes "unat N < 2 ^ 63" and "list_all (fits N) cs"
  shows "\<exists>s. run cs (new_pair N) = Some s \<and> positions_ok s \<and> cb_capacity (cb s) = N"
proof -
  have "cb_capacity (cb (new_pair N)) = N"
    by (simp add: new_pair_def control_block_init_def)
  then show ?thesis
    using positions_ok_run [OF positions_ok_new_pair [OF assms(1)], of cs] assms(2)
    by simp
qed

text \<open>
  C6 as stated, with \<open>write < capacity\<close> at rest, fails: a buffer of capacity 10 on which
  \<open>prepare(10)\<close> and \<open>commit(10)\<close> have been called is at rest with
  \<open>write = 10 = capacity\<close>.
\<close>

theorem write_reaches_capacity:
  "run [Prepare 10, Commit 10] (new_pair 10) =
     Some \<lparr>cb = \<lparr>cb_capacity = 10, cb_read = 0, cb_write = 10, cb_watermark = 10\<rparr>,
           prepared = 0\<rparr>
   \<and> \<not> cb_write \<lparr>cb_capacity = 10, cb_read = 0, cb_write = 10, cb_watermark = 10\<rparr>
        < cb_capacity \<lparr>cb_capacity = 10, cb_read = 0, cb_write = 10, cb_watermark = 10\<rparr>"
  by code_simp

text \<open>
  C6 (as amended). In every state at rest (nothing pending) that a fresh buffer of a
  capacity below \<open>2 ^ 63\<close> reaches through calls of \<open>prepare\<close>, \<open>commit\<close>, \<open>consume\<close> and
  \<open>values\<close> whose prepared amounts fit, \<open>read \<le> capacity\<close> and \<open>write \<le> capacity\<close>.
\<close>

theorem positions_at_most_capacity:
  assumes "unat N < 2 ^ 63" and "list_all (fits N) cs"
    and "run cs (new_pair N) = Some s" and "prepared s = 0"
  shows "cb_read (cb s) \<le> cb_capacity (cb s) \<and> cb_write (cb s) \<le> cb_capacity (cb s)"
proof -
  from reachable_positions_ok [OF assms(1,2)] assms(3)
  have "positions_ok s" by auto
  then show ?thesis
    by (auto simp: positions_ok_def word_le_nat_alt split: if_splits)
qed

theorem positions_at_most_capacity_witness:
  "unat (10 :: size_t) < 2 ^ 63
   \<and> list_all (fits 10) [Prepare 10, Commit 10, Consume 10]
   \<and> run [Prepare 10, Commit 10, Consume 10] (new_pair 10) =
       Some \<lparr>cb = \<lparr>cb_capacity = 10, cb_read = 10, cb_write = 10, cb_watermark = 10\<rparr>,
             prepared = 0\<rparr>
   \<and> cb_read \<lparr>cb_capacity = 10, cb_read = 10, cb_write = 10, cb_watermark = 10\<rparr> \<le> (10 :: size_t)
   \<and> cb_write \<lparr>cb_capacity = 10, cb_read = 10, cb_write = 10, cb_watermark = 10\<rparr> \<le> (10 :: size_t)"
proof -
  have a: "unat (10 :: size_t) < 2 ^ 63"
    by simp
  have b: "list_all (fits 10) [Prepare 10, Commit 10, Consume 10]"
    by simp
  have c: "run [Prepare 10, Commit 10, Consume 10] (new_pair 10) =
       Some \<lparr>cb = \<lparr>cb_capacity = 10, cb_read = 10, cb_write = 10, cb_watermark = 10\<rparr>,
             prepared = 0\<rparr>"
    by code_simp
  show ?thesis
    using positions_at_most_capacity [OF a b c] a b c by simp
qed

section \<open>Amounts that wrap around\<close>

text \<open>
  C3. On a buffer of capacity 10, after \<open>prepare(2)\<close>, \<open>commit(2)\<close> and \<open>consume(1)\<close> one
  element is available (\<open>read = 1\<close>, \<open>write = 2\<close>). \<open>consume(2 ^ 64 - 1)\<close> asks for more
  than is available, and it sets \<open>read\<close> to 0: \<open>read + amount\<close> wraps around to 0 before
  the minimum with \<open>write\<close> is taken. The buffer is not left empty, and \<open>read\<close> has moved
  backwards.
\<close>

theorem consume_wraps_read_back:
  "run [Prepare 2, Commit 2, Consume 1] (new_pair 10) =
     Some \<lparr>cb = \<lparr>cb_capacity = 10, cb_read = 1, cb_write = 2, cb_watermark = 2\<rparr>,
           prepared = 0\<rparr>
   \<and> consume 18446744073709551615
        \<lparr>cb_capacity = 10, cb_read = 1, cb_write = 2, cb_watermark = 2\<rparr> =
       Some \<lparr>cb_capacity = 10, cb_read = 0, cb_write = 2, cb_watermark = 2\<rparr>"
  by code_simp

text \<open>
  C5. On a buffer of capacity 10, the calls \<open>prepare(10)\<close>, \<open>commit(10)\<close>, \<open>consume(2)\<close>,
  \<open>prepare(1)\<close>, \<open>commit(1)\<close> lead to \<open>read = 2\<close>, \<open>write = 1\<close> with nothing pending. There
  \<open>prepare(2 ^ 64 - 1)\<close> succeeds: \<open>write + amount\<close> wraps around to 0, which is below
  \<open>read\<close>. The region returned starts at offset 1 and has \<open>2 ^ 64 - 1\<close> elements.
\<close>

theorem prepare_wraps_past_storage:
  "run [Prepare 10, Commit 10, Consume 2, Prepare 1, Commit 1] (new_pair 10) =
     Some \<lparr>cb = \<lparr>cb_capacity = 10, cb_read = 2, cb_write = 1, cb_watermark = 10\<rparr>,
           prepared = 0\<rparr>
   \<and> prepare 18446744073709551615
        \<lparr>cb = \<lparr>cb_capacity = 10, cb_read = 2, cb_write = 1, cb_watermark = 10\<rparr>,
           prepared = 0\<rparr> =
       (Span 1 18446744073709551615,
        \<lparr>cb = \<lparr>cb_capacity = 10, cb_read = 2, cb_write = 1, cb_watermark = 10\<rparr>,
           prepared = 18446744073709551615\<rparr>)"
  by code_simp

text \<open>
  C7. In the same state (\<open>read = 2\<close>, \<open>write = 1\<close>, capacity 10, nothing pending) no
  reservation is pending and the only free room, between \<open>write\<close> and \<open>read\<close>, does not
  take \<open>2 ^ 64 - 1\<close> elements: \<open>write + amount < read\<close> is false of the numbers. Yet
  \<open>prepare(2 ^ 64 - 1)\<close> does not fail: it returns the region at offset 1 of length
  \<open>2 ^ 64 - 1\<close> and sets the pending length to \<open>2 ^ 64 - 1\<close>.
\<close>

theorem prepare_accepts_without_room:
  "run [Prepare 10, Commit 10, Consume 2, Prepare 1, Commit 1] (new_pair 10) =
     Some \<lparr>cb = \<lparr>cb_capacity = 10, cb_read = 2, cb_write = 1, cb_watermark = 10\<rparr>,
           prepared = 0\<rparr>
   \<and> \<not> unat (1 :: size_t) + unat (18446744073709551615 :: size_t) < unat (2 :: size_t)
   \<and> fst (prepare 18446744073709551615
        \<lparr>cb = \<lparr>cb_capacity = 10, cb_read = 2, cb_write = 1, cb_watermark = 10\<rparr>,
           prepared = 0\<rparr>) = Span 1 18446744073709551615
   \<and> prepared (snd (prepare 18446744073709551615
        \<lparr>cb = \<lparr>cb_capacity = 10, cb_read = 2, cb_write = 1, cb_watermark = 10\<rparr>,
           prepared = 0\<rparr>)) = 18446744073709551615"
proof (intro conjI)
  show "run [Prepare 10, Commit 10, Consume 2, Prepare 1, Commit 1] (new_pair 10) =
     Some \<lparr>cb = \<lparr>cb_capacity = 10, cb_read = 2, cb_write = 1, cb_watermark = 10\<rparr>,
           prepared = 0\<rparr>"
    by code_simp
  show "\<not> unat (1 :: size_t) + unat (18446744073709551615 :: size_t) < unat (2 :: size_t)"
    by simp
  show "fst (prepare 18446744073709551615
        \<lparr>cb = \<lparr>cb_capacity = 10, cb_read = 2, cb_write = 1, cb_watermark = 10\<rparr>,
           prepared = 0\<rparr>) = Span 1 18446744073709551615"
    by code_simp
  show "prepared (snd (prepare 18446744073709551615
        \<lparr>cb = \<lparr>cb_capacity = 10, cb_read = 2, cb_write = 1, cb_watermark = 10\<rparr>,
           prepared = 0\<rparr>)) = 18446744073709551615"
    by code_simp
qed

text \<open>
  C10. The reservation of \<open>2 ^ 64 - 1\<close> elements above lets \<open>commit\<close> move \<open>write\<close> anywhere.
  Nine calls on a buffer of capacity 10 reach \<open>write = 0 < read = 52\<close> with the watermark
  at 10, below \<open>read\<close>; five more reach \<open>write = 0 < read = 2\<close> with the watermark at 0,
  where \<open>consume(1)\<close> takes a remainder by 0.
\<close>

theorem wrapped_with_watermark_zero:
  "run [Prepare 10, Commit 10, Consume 2, Prepare 1, Commit 1,
        Prepare 18446744073709551615, Commit 99, Consume 50,
        Commit 18446744073709551516] (new_pair 10) =
     Some \<lparr>cb = \<lparr>cb_capacity = 10, cb_read = 52, cb_write = 0, cb_watermark = 10\<rparr>,
           prepared = 0\<rparr>
   \<and> run [Prepare 10, Commit 10, Consume 2, Prepare 1, Commit 1,
          Prepare 18446744073709551615, Commit 99, Consume 50,
          Commit 18446744073709551516, Prepare 51, Commit 51, Consume 0,
          Prepare 18446744073709551565, Commit 18446744073709551565] (new_pair 10) =
       Some \<lparr>cb = \<lparr>cb_capacity = 10, cb_read = 2, cb_write = 0, cb_watermark = 0\<rparr>,
             prepared = 0\<rparr>
   \<and> consume 1 \<lparr>cb_capacity = 10, cb_read = 2, cb_write = 0, cb_watermark = 0\<rparr> = None"
  by code_simp

section \<open>Amounts that do not wrap around\<close>

text \<open>
  Under the invariant, a \<open>prepare\<close> whose amount fits returns a region inside the
  storage, and it returns the empty span and changes nothing whenever a reservation is
  pending or the amount has no room, as numbers; a wrapped buffer has \<open>write < watermark\<close>, \<open>read \<le> watermark\<close> and a watermark
  other than 0, and \<open>consume\<close> leaves \<open>read\<close> below the watermark; and a \<open>consume\<close> of at
  least what is unread, with \<open>read + amount\<close> below \<open>2 ^ 64\<close>, leaves the buffer empty.
\<close>

lemma prepare_span:
  "prepare amount s = (Span off n, s') \<Longrightarrow>
   off = cb_write (cb s') \<and> n = prepared s' \<and> n = amount"
  by (auto simp: prepare_def accessor_defs Let_def split: if_splits)

lemma prepare_region_inside:
  assumes ok: "positions_ok s"
    and fit: "unat (cb_capacity (cb s)) + unat amount < 2 ^ 64"
    and sp: "fst (prepare amount s) = Span off n"
  shows "n = amount \<and> unat off + unat n \<le> unat (cb_capacity (cb s))"
proof -
  obtain s' where p: "prepare amount s = (Span off n, s')"
    using sp by (cases "prepare amount s") simp
  have ok': "positions_ok s'"
    using positions_ok_prepare [OF ok fit] p by simp
  have cap: "cb_capacity (cb s') = cb_capacity (cb s)"
    using prepare_capacity [of amount s] p by simp
  have "unat (cb_write (cb s')) + unat (prepared s') \<le> unat (cb_capacity (cb s'))"
    using ok' by (auto simp: positions_ok_def split: if_splits)
  then show ?thesis
    using prepare_span [OF p] cap by auto
qed

lemma prepare_without_room_fails:
  assumes ok: "positions_ok s"
    and fit: "unat (cb_capacity (cb s)) + unat amount < 2 ^ 64"
    and noroom: "prepared s \<noteq> 0
      \<or> (unat (cb_read (cb s)) \<le> unat (cb_write (cb s))
          \<and> unat (cb_capacity (cb s)) - unat (cb_write (cb s)) < unat amount
          \<and> unat (cb_read (cb s)) \<le> unat amount)
      \<or> (unat (cb_write (cb s)) < unat (cb_read (cb s))
          \<and> unat (cb_read (cb s)) \<le> unat (cb_write (cb s)) + unat amount)"
  shows "prepare amount s = (Null_span, s)"
proof (cases "prepared s = 0")
  case False
  then show ?thesis by (rule prepare_pending)
next
  case p0: True
  show ?thesis
  proof (cases "unat (cb_read (cb s)) \<le> unat (cb_write (cb s))")
    case True
    with ok have wn: "unat (cb_write (cb s)) \<le> unat (cb_capacity (cb s))"
      by (simp add: positions_ok_def)
    then have left: "unat (cb_capacity (cb s) - cb_write (cb s)) =
        unat (cb_capacity (cb s)) - unat (cb_write (cb s))"
      by (rule unat_sub_small)
    from noroom p0 True
    have a: "unat (cb_capacity (cb s)) - unat (cb_write (cb s)) < unat amount"
      and b: "unat (cb_read (cb s)) \<le> unat amount"
      by auto
    have "\<not> amount \<le> cb_capacity (cb s) - cb_write (cb s)"
      using a by (simp add: word_le_nat_alt left)
    moreover have "\<not> amount < cb_read (cb s)"
      using b by (simp add: word_less_nat_alt)
    moreover have "cb_read (cb s) \<le> cb_write (cb s)"
      using True by (simp add: word_le_nat_alt)
    ultimately show ?thesis
      using p0 by (simp add: prepare_unfold)
  next
    case False
    with ok have "unat (cb_write (cb s)) < unat (cb_capacity (cb s))"
      by (simp add: positions_ok_def)
    with fit have "unat (cb_write (cb s)) + unat amount < 2 ^ 64"
      by simp
    then have sum: "unat (cb_write (cb s) + amount) = unat (cb_write (cb s)) + unat amount"
      by (rule unat_add_small)
    from noroom p0 False
    have "unat (cb_read (cb s)) \<le> unat (cb_write (cb s)) + unat amount"
      by auto
    then have "\<not> cb_write (cb s) + amount < cb_read (cb s)"
      by (simp add: word_less_nat_alt sum)
    moreover have "\<not> cb_read (cb s) \<le> cb_write (cb s)"
      using False by (simp add: word_le_nat_alt)
    ultimately show ?thesis
      using p0 by (simp add: prepare_unfold)
  qed
qed

lemma wrapped_watermark:
  assumes ok: "positions_ok s" and wr: "cb_write (cb s) < cb_read (cb s)"
  shows "cb_write (cb s) < cb_watermark (cb s) \<and> cb_read (cb s) \<le> cb_watermark (cb s)
    \<and> cb_watermark (cb s) \<noteq> 0
    \<and> (\<exists>c'. consume amount (cb s) = Some c' \<and> cb_read c' < cb_watermark (cb s))"
proof -
  have w: "unat (cb_write (cb s)) < unat (cb_read (cb s))"
    using wr by (simp add: word_less_nat_alt)
  with ok have rm: "unat (cb_read (cb s)) \<le> unat (cb_watermark (cb s))"
    and mn: "unat (cb_watermark (cb s)) \<le> unat (cb_capacity (cb s))"
    and n: "unat (cb_capacity (cb s)) < 2 ^ 63"
    by (simp_all add: positions_ok_def)
  have m63: "unat (cb_watermark (cb s)) < 2 ^ 63"
    using mn n by simp
  have "unat (cb_watermark (cb s)) \<noteq> 0"
    using w rm by simp
  then have m0: "cb_watermark (cb s) \<noteq> 0"
    by (simp add: unat_eq_0)
  have "unat ((cb_read (cb s)
      + min_sz (cb_watermark (cb s) - cb_read (cb s) + cb_write (cb s)) amount)
      mod cb_watermark (cb s)) < unat (cb_watermark (cb s))"
    using w rm by (auto simp: wrapped_read_nat [OF w rm m63] Let_def min_def)
  then show ?thesis
    using w rm m0 by (simp add: consume_wrapped [OF wr m0] word_less_nat_alt word_le_nat_alt)
qed

lemma consume_drains:
  assumes ok: "positions_ok s"
    and nowrap: "unat (cb_read (cb s)) + unat amount < 2 ^ 64"
    and all: "(if cb_read (cb s) \<le> cb_write (cb s)
               then unat (cb_write (cb s)) - unat (cb_read (cb s))
               else unat (cb_watermark (cb s)) - unat (cb_read (cb s)) + unat (cb_write (cb s)))
              \<le> unat amount"
  shows "\<exists>c'. consume amount (cb s) = Some c' \<and> cb_read c' = cb_write c'"
proof -
  consider (empty) "cb_read (cb s) = cb_write (cb s)"
    | (unwrapped) "cb_read (cb s) < cb_write (cb s)"
    | (wrapped) "cb_write (cb s) < cb_read (cb s)"
    by (rule linorder_cases) auto
  then show ?thesis
  proof cases
    case empty
    then show ?thesis by (simp add: consume_empty)
  next
    case unwrapped
    have sum: "unat (cb_read (cb s) + amount) = unat (cb_read (cb s)) + unat amount"
      using nowrap by (rule unat_add_small)
    have "unat (cb_write (cb s)) \<le> unat (cb_read (cb s) + amount)"
      using all unwrapped by (simp add: sum word_less_nat_alt word_le_nat_alt)
    then have "min_sz (cb_read (cb s) + amount) (cb_write (cb s)) = cb_write (cb s)"
      by (simp add: min_sz_def word_less_nat_alt)
    then show ?thesis
      by (simp add: consume_unwrapped [OF unwrapped])
  next
    case wrapped
    then have w: "unat (cb_write (cb s)) < unat (cb_read (cb s))"
      by (simp add: word_less_nat_alt)
    with ok have rm: "unat (cb_read (cb s)) \<le> unat (cb_watermark (cb s))"
      and mn: "unat (cb_watermark (cb s)) \<le> unat (cb_capacity (cb s))"
      and n: "unat (cb_capacity (cb s)) < 2 ^ 63"
      by (simp_all add: positions_ok_def)
    have m63: "unat (cb_watermark (cb s)) < 2 ^ 63"
      using mn n by simp
    have "unat (cb_watermark (cb s)) \<noteq> 0"
      using w rm by simp
    then have m0: "cb_watermark (cb s) \<noteq> 0"
      by (simp add: unat_eq_0)
    have "\<not> cb_read (cb s) \<le> cb_write (cb s)"
      using wrapped by simp
    with all have k: "min (unat (cb_watermark (cb s)) - unat (cb_read (cb s))
        + unat (cb_write (cb s))) (unat amount) =
        unat (cb_watermark (cb s)) - unat (cb_read (cb s)) + unat (cb_write (cb s))"
      by simp
    have "unat ((cb_read (cb s)
        + min_sz (cb_watermark (cb s) - cb_read (cb s) + cb_write (cb s)) amount)
        mod cb_watermark (cb s)) =
        unat (cb_read (cb s)) + (unat (cb_watermark (cb s)) - unat (cb_read (cb s))
          + unat (cb_write (cb s))) - unat (cb_watermark (cb s))"
      using w rm unfolding wrapped_read_nat [OF w rm m63] Let_def k by simp
    also have "\<dots> = unat (cb_write (cb s))"
      using rm by simp
    finally have "unat ((cb_read (cb s)
        + min_sz (cb_watermark (cb s) - cb_read (cb s) + cb_write (cb s)) amount)
        mod cb_watermark (cb s)) = unat (cb_write (cb s))" .
    then show ?thesis
      by (simp add: consume_wrapped [OF wrapped m0] word_unat_eq_iff)
  qed
qed

section \<open>Cycles of prepare, fill, commit, values, consume\<close>

lemma min_sz_same: "min_sz a a = a"
  by (simp add: min_sz_def)

lemma commit_all:
  "amount \<noteq> 0 \<Longrightarrow> prepared s = amount \<Longrightarrow>
   commit amount s = s\<lparr>cb := (cb s)\<lparr>cb_write := cb_write (cb s) + amount\<rparr>, prepared := 0\<rparr>"
  by (simp add: commit_def accessor_defs Let_def min_sz_same)

lemma cycle_tail:
  assumes p0: "prepared s = 0"
    and rw: "cb_read (cb s) = cb_write (cb s)"
    and len: "length buf = unat (cb_capacity (cb s))"
    and n: "unat (cb_capacity (cb s)) < 2 ^ 63"
    and pos: "0 < length xs"
    and room: "length xs \<le> unat (cb_capacity (cb s)) - unat (cb_write (cb s))"
    and wn: "unat (cb_write (cb s)) \<le> unat (cb_capacity (cb s))"
  shows "\<exists>buf' s'. cycle xs (buf, s) =
      Some ((Span (cb_write (cb s)) (of_nat (length xs)), xs), (buf', s'))
    \<and> prepared s' = 0 \<and> cb_read (cb s') = cb_write (cb s')
    \<and> unat (cb_write (cb s')) = unat (cb_write (cb s)) + length xs
    \<and> cb_capacity (cb s') = cb_capacity (cb s) \<and> length buf' = length buf"
proof -
  define a :: size_t where "a = of_nat (length xs)"
  let ?w = "cb_write (cb s)"
  have ua: "unat a = length xs"
    unfolding a_def using room by (intro le_unat_uoi [of _ "cb_capacity (cb s)"]) simp
  have a0: "a \<noteq> 0"
    using pos ua by (auto simp: unat_eq_0)
  have left: "unat (cb_capacity (cb s) - ?w) = unat (cb_capacity (cb s)) - unat ?w"
    using wn by (rule unat_sub_small)
  have fit: "a \<le> cb_capacity (cb s) - ?w"
    using room by (simp add: word_le_nat_alt left ua)
  have sum: "unat (?w + a) = unat ?w + unat a"
    using room wn n by (intro unat_add_small) (simp add: ua)
  have lt: "?w < ?w + a"
    using pos by (simp add: word_less_nat_alt sum ua)
  define s1 where "s1 = s\<lparr>cb := (cb s)\<lparr>cb_watermark := ?w + a\<rparr>, prepared := a\<rparr>"
  have prep: "prepare a s = (Span ?w a, s1)"
    using p0 rw fit by (simp add: prepare_unfold s1_def)
  define buf1 where "buf1 = take (unat ?w) buf @ xs @ drop (unat ?w + unat a) buf"
  have st: "span_store buf (Span ?w a) xs = Some buf1"
    using room wn len by (simp add: span_store_def buf1_def ua)
  define s2 where "s2 = s1\<lparr>cb := (cb s1)\<lparr>cb_write := ?w + a\<rparr>, prepared := 0\<rparr>"
  have com: "commit a s1 = s2"
    using a0 by (simp add: commit_all s1_def s2_def)
  have rd2: "cb_read (cb s2) = ?w" and wr2: "cb_write (cb s2) = ?w + a"
    using rw by (simp_all add: s2_def s1_def)
  have vals: "reader_values (cb s2) = (Span ?w a, cb s2)"
    using lt by (simp add: reader_values_def accessor_defs Let_def rd2 wr2)
  have ld: "span_load buf1 (Span ?w a) = Some xs"
    using room wn len by (simp add: span_load_def buf1_def ua)
  have con: "consume a (cb s2) = Some ((cb s2)\<lparr>cb_read := ?w + a\<rparr>)"
    using lt by (simp add: consume_unwrapped rd2 wr2 min_sz_same)
  have "cycle xs (buf, s) =
      Some ((Span ?w a, xs), (buf1, s2\<lparr>cb := (cb s2)\<lparr>cb_read := ?w + a\<rparr>\<rparr>))"
    by (simp add: cycle_def a_def [symmetric] prep st com vals ld con)
  moreover have "length buf1 = length buf"
    using room wn len by (simp add: buf1_def ua)
  ultimately show ?thesis
    using sum ua by (simp add: s2_def s1_def a_def)
qed

lemma cycle_front:
  assumes p0: "prepared s = 0"
    and rw: "cb_read (cb s) = cb_write (cb s)"
    and len: "length buf = unat (cb_capacity (cb s))"
    and n: "unat (cb_capacity (cb s)) < 2 ^ 63"
    and pos: "0 < length xs"
    and noroom: "\<not> length xs \<le> unat (cb_capacity (cb s)) - unat (cb_write (cb s))"
    and front: "length xs < unat (cb_write (cb s))"
    and wn: "unat (cb_write (cb s)) \<le> unat (cb_capacity (cb s))"
  shows "\<exists>buf' s'. cycle xs (buf, s) =
      Some ((Span 0 (of_nat (length xs)), xs), (buf', s'))
    \<and> prepared s' = 0 \<and> cb_read (cb s') = cb_write (cb s')
    \<and> unat (cb_write (cb s')) = length xs
    \<and> cb_capacity (cb s') = cb_capacity (cb s) \<and> length buf' = length buf"
proof -
  define a :: size_t where "a = of_nat (length xs)"
  let ?w = "cb_write (cb s)"
  have ua: "unat a = length xs"
    unfolding a_def using front by (intro le_unat_uoi [of _ ?w]) simp
  have a0: "a \<noteq> 0"
    using pos ua by (auto simp: unat_eq_0)
  have left: "unat (cb_capacity (cb s) - ?w) = unat (cb_capacity (cb s)) - unat ?w"
    using wn by (rule unat_sub_small)
  have nofit: "\<not> a \<le> cb_capacity (cb s) - ?w"
    using noroom by (simp add: word_le_nat_alt left ua)
  have lt: "a < ?w"
    using front by (simp add: word_less_nat_alt ua)
  then have w0: "?w \<noteq> 0"
    by auto
  have nlt: "\<not> ?w < a"
    using lt by simp
  define s1 where "s1 = s\<lparr>cb := (cb s)\<lparr>cb_watermark := ?w, cb_write := 0\<rparr>, prepared := a\<rparr>"
  have prep: "prepare a s = (Span 0 a, s1)"
    using p0 rw nofit lt by (simp add: prepare_unfold s1_def)
  define buf1 where "buf1 = xs @ drop (unat a) buf"
  have al: "unat a \<le> length buf"
    using front wn len by (simp add: ua)
  have st: "span_store buf (Span 0 a) xs = Some buf1"
    using al by (simp add: span_store_def buf1_def ua)
  define s2 where "s2 = s1\<lparr>cb := (cb s1)\<lparr>cb_write := a\<rparr>, prepared := 0\<rparr>"
  have com: "commit a s1 = s2"
    using a0 by (simp add: commit_all s1_def s2_def)
  have rd2: "cb_read (cb s2) = ?w" and wr2: "cb_write (cb s2) = a"
    and wm2: "cb_watermark (cb s2) = ?w"
    using rw by (simp_all add: s2_def s1_def)
  have vals: "reader_values (cb s2) = (Span 0 a, cb s2)"
    using lt nlt by (simp add: reader_values_def accessor_defs Let_def rd2 wr2 wm2)
  have ld: "span_load buf1 (Span 0 a) = Some xs"
    using al by (simp add: span_load_def buf1_def ua)
  have "unat ?w + unat a < 2 ^ 64"
    using front wn n by (simp add: ua)
  then have sum: "unat (?w + a) = unat ?w + unat a"
    by (rule unat_add_small)
  have "unat ((?w + a) mod ?w) = unat a"
    using front by (simp add: unat_mod sum ua)
  then have md: "(?w + a) mod ?w = a"
    by (simp add: word_unat_eq_iff)
  have con: "consume a (cb s2) = Some ((cb s2)\<lparr>cb_read := a\<rparr>)"
    using lt w0 by (simp add: consume_wrapped rd2 wr2 wm2 min_sz_same md)
  have "cycle xs (buf, s) =
      Some ((Span 0 a, xs), (buf1, s2\<lparr>cb := (cb s2)\<lparr>cb_read := a\<rparr>\<rparr>))"
    by (simp add: cycle_def a_def [symmetric] prep st com vals ld con)
  moreover have "length buf1 = length buf"
    using al by (simp add: buf1_def ua)
  ultimately show ?thesis
    using ua by (simp add: s2_def s1_def a_def)
qed

lemma cycle_fail:
  assumes p0: "prepared s = 0"
    and rw: "cb_read (cb s) = cb_write (cb s)"
    and le: "length xs \<le> unat (cb_capacity (cb s))"
    and noroom: "\<not> length xs \<le> unat (cb_capacity (cb s)) - unat (cb_write (cb s))"
    and nofront: "\<not> length xs < unat (cb_write (cb s))"
    and wn: "unat (cb_write (cb s)) \<le> unat (cb_capacity (cb s))"
  shows "cycle xs (buf, s) = Some ((Null_span, []), (buf, s))"
proof -
  define a :: size_t where "a = of_nat (length xs)"
  let ?w = "cb_write (cb s)"
  have ua: "unat a = length xs"
    unfolding a_def using le by (rule le_unat_uoi)
  have left: "unat (cb_capacity (cb s) - ?w) = unat (cb_capacity (cb s)) - unat ?w"
    using wn by (rule unat_sub_small)
  have nofit: "\<not> a \<le> cb_capacity (cb s) - ?w"
    using noroom by (simp add: word_le_nat_alt left ua)
  have nolt: "\<not> a < ?w"
    using nofront by (simp add: word_less_nat_alt ua)
  have prep: "prepare a s = (Null_span, s)"
    using p0 rw nofit nolt by (simp add: prepare_unfold)
  have com: "commit a s = s"
    using p0 by (simp add: commit_def)
  have vals: "reader_values (cb s) = (Null_span, cb s)"
    using rw by (simp add: reader_values_def accessor_defs Let_def)
  have con: "consume a (cb s) = Some (cb s)"
    using rw by (simp add: consume_empty)
  show ?thesis
    by (simp add: cycle_def a_def [symmetric] prep com vals con span_store_def span_load_def)
qed

lemma cycles_expected:
  assumes "prepared s = 0"
    and "cb_read (cb s) = cb_write (cb s)"
    and "length buf = unat (cb_capacity (cb s))"
    and "unat (cb_capacity (cb s)) < 2 ^ 63"
    and "unat (cb_write (cb s)) \<le> unat (cb_capacity (cb s))"
    and "\<forall>xs\<in>set xss. 0 < length xs \<and> length xs \<le> unat (cb_capacity (cb s))"
  shows "map_option fst (cycles xss (buf, s)) =
    Some (expected (unat (cb_capacity (cb s))) (unat (cb_write (cb s))) xss)"
  using assms
proof (induction xss arbitrary: buf s)
  case Nil
  then show ?case by simp
next
  case (Cons xs xss)
  let ?N = "unat (cb_capacity (cb s))"
  let ?W = "unat (cb_write (cb s))"
  from Cons.prems have pos: "0 < length xs" and le: "length xs \<le> ?N"
    and rest: "\<forall>ys\<in>set xss. 0 < length ys \<and> length ys \<le> ?N"
    by simp_all
  consider (tail) "length xs \<le> ?N - ?W"
    | (front) "\<not> length xs \<le> ?N - ?W" "length xs < ?W"
    | (fail) "\<not> length xs \<le> ?N - ?W" "\<not> length xs < ?W"
    by blast
  then show ?case
  proof cases
    case tail
    from cycle_tail [OF Cons.prems(1,2,3,4) pos tail Cons.prems(5)]
    obtain buf' s' where c: "cycle xs (buf, s) =
        Some ((Span (cb_write (cb s)) (of_nat (length xs)), xs), (buf', s'))"
      and s': "prepared s' = 0" "cb_read (cb s') = cb_write (cb s')"
        "unat (cb_write (cb s')) = ?W + length xs"
        "cb_capacity (cb s') = cb_capacity (cb s)" "length buf' = length buf"
      by blast
    have "map_option fst (cycles xss (buf', s')) =
        Some (expected (unat (cb_capacity (cb s'))) (unat (cb_write (cb s'))) xss)"
      using s' Cons.prems(3,4) rest tail Cons.prems(5)
      by (intro Cons.IH) simp_all
    then show ?thesis
      using c tail s' by (auto split: option.splits)
  next
    case front
    from cycle_front [OF Cons.prems(1,2,3,4) pos front Cons.prems(5)]
    obtain buf' s' where c: "cycle xs (buf, s) =
        Some ((Span 0 (of_nat (length xs)), xs), (buf', s'))"
      and s': "prepared s' = 0" "cb_read (cb s') = cb_write (cb s')"
        "unat (cb_write (cb s')) = length xs"
        "cb_capacity (cb s') = cb_capacity (cb s)" "length buf' = length buf"
      by blast
    have "map_option fst (cycles xss (buf', s')) =
        Some (expected (unat (cb_capacity (cb s'))) (unat (cb_write (cb s'))) xss)"
      using s' Cons.prems(3,4) rest le
      by (intro Cons.IH) simp_all
    then show ?thesis
      using c front s' by (auto split: option.splits)
  next
    case fail
    have c: "cycle xs (buf, s) = Some ((Null_span, []), (buf, s))"
      by (rule cycle_fail [OF Cons.prems(1,2) le fail Cons.prems(5)])
    have "map_option fst (cycles xss (buf, s)) = Some (expected ?N ?W xss)"
      using Cons.prems(1-5) rest by (intro Cons.IH) simp_all
    then show ?thesis
      using c fail by (auto split: option.splits)
  qed
qed

lemma expected_entries:
  "list_all2 (\<lambda>xs r. r = (Null_span, []) \<or> (snd r = xs \<and> span_size (fst r) = of_nat (length xs)))
     xss (expected N pos xss)"
  by (induction xss arbitrary: pos) simp_all

text \<open>
  C1 as stated, with every \<open>prepare\<close> returning a region of length \<open>a\<close>, fails: on a
  buffer of capacity 10, a cycle of 5 elements followed by a cycle of 6 elements gets the
  empty span from the second \<open>prepare\<close>, although \<open>0 < 6 \<le> 10\<close> and the buffer is empty.
  Neither the tail \<open>[5, 10)\<close> nor the front \<open>[0, 5)\<close> takes 6 elements.
\<close>

theorem second_prepare_fails:
  "map_option fst
     (cycles [ [1, 2, 3, 4, 5], [6, 7, 8, 9, 10, 11 :: nat]] (replicate 10 0, new_pair 10)) =
   Some [(Span 0 5, [1, 2, 3, 4, 5]), (Null_span, [])]"
  by code_simp

text \<open>
  C1 (as amended). For every sequence of cycles \<open>prepare(a)\<close>, fill, \<open>commit(a)\<close>,
  \<open>values()\<close>, \<open>consume(a)\<close> on a fresh buffer of a capacity below \<open>2 ^ 63\<close>, every \<open>a\<close>
  with \<open>0 < a \<le> capacity\<close>: a cycle that starts at the position \<open>pos\<close> gets the region
  at \<open>pos\<close> of length \<open>a\<close> when \<open>a \<le> capacity - pos\<close>, else the region at 0 of length \<open>a\<close>
  when \<open>a < pos\<close>, and then \<open>values()\<close> gives exactly the \<open>a\<close> elements written; else
  \<open>prepare\<close> returns the empty span and the consumer reads nothing. So every cycle
  either fails as a whole or hands over exactly its elements, in order.
\<close>

theorem cycles_observe_written:
  assumes "unat N < 2 ^ 63" and "length buf = unat N"
    and "\<forall>xs\<in>set xss. 0 < length xs \<and> length xs \<le> unat N"
  shows "map_option fst (cycles xss (buf, new_pair N)) = Some (expected (unat N) 0 xss)
    \<and> list_all2
        (\<lambda>xs r. r = (Null_span, []) \<or> (snd r = xs \<and> span_size (fst r) = of_nat (length xs)))
        xss (expected (unat N) 0 xss)"
  using cycles_expected [of "new_pair N" buf xss] assms expected_entries [of xss "unat N" 0]
  by (simp add: new_pair_def control_block_init_def)

theorem cycles_observe_written_witness:
  "unat (10 :: size_t) < 2 ^ 63
   \<and> length (replicate 10 (0 :: nat)) = unat (10 :: size_t)
   \<and> list_all (\<lambda>xs. 0 < length xs \<and> length xs \<le> unat (10 :: size_t))
        [ [1, 2, 3, 4, 5, 6], [7, 8, 9, 10, 11], [12, 13, 14, 15, 16], [17 :: nat]]
   \<and> map_option fst
        (cycles [ [1, 2, 3, 4, 5, 6], [7, 8, 9, 10, 11], [12, 13, 14, 15, 16], [17 :: nat]]
           (replicate 10 0, new_pair 10)) =
       Some [(Span 0 6, [1, 2, 3, 4, 5, 6]), (Span 0 5, [7, 8, 9, 10, 11]),
             (Span 5 5, [12, 13, 14, 15, 16]), (Span 0 1, [17])]"
proof -
  have a: "unat (10 :: size_t) < 2 ^ 63"
    by simp
  have b: "length (replicate 10 (0 :: nat)) = unat (10 :: size_t)"
    by simp
  have c: "\<forall>xs\<in>set [ [1, 2, 3, 4, 5, 6], [7, 8, 9, 10, 11], [12, 13, 14, 15, 16], [17 :: nat]].
      0 < length xs \<and> length xs \<le> unat (10 :: size_t)"
    by simp
  show ?thesis
    using cycles_observe_written [OF a b c] by simp
qed

end
